theory Spec2Isabelle
  imports Main
begin

section \<open>The JavaScript regex engine of shiki (packages/engine-javascript/src/index.ts)\<close>

text \<open>
  The scanner delegates matching to JavaScript \<open>RegExp\<close> objects. A \<open>RegExp\<close> is an
  object of the runtime, shared by reference between the cache and every scanner built
  from it, with one mutable field, \<open>lastIndex\<close>. The embedding keeps the objects in an
  explicit heap (addresses to objects). What \<open>exec\<close> does on an object is not code of
  this repository: it is the field \<open>run\<close> of the object, a function of the current
  \<open>lastIndex\<close> and the subject string that gives the new \<open>lastIndex\<close> and either a
  thrown error, \<open>null\<close> or a match. Every general theorem below holds for all such
  behaviours.

  Positions are natural numbers (the scanner is called with a non-negative
  \<open>startPosition\<close>); strings are lists of characters, \<open>str.slice(n)\<close> is \<open>drop n str\<close>.
\<close>

subsection \<open>Data\<close>

text \<open>
  A thrown JavaScript value. \<open>throw\<close> accepts every value, and \<open>catch (e)\<close> stores
  what was thrown, so next to \<open>Error\<close> objects there are the primitive values
  (numbers are integers here); \<open>Error\<close> stands for every thrown object that is not a
  \<open>RegExp\<close>. \<open>truthy\<close> is what \<open>if (e)\<close> tests: an object is truthy, and
  \<open>undefined\<close>, \<open>null\<close>, \<open>false\<close>, \<open>0\<close> and the empty string are not.
\<close>

datatype error = Error string | Undefined | Null | Boolean bool | Number int | Text string

fun truthy :: "error \<Rightarrow> bool" where
  "truthy (Error msg) = True"
| "truthy Undefined = False"
| "truthy Null = False"
| "truthy (Boolean b) = b"
| "truthy (Number n) = (n \<noteq> 0)"
| "truthy (Text s) = (s \<noteq> [])"

text \<open>
  A \<open>RegExpExecArray\<close> of a regex with the \<open>d\<close> flag: \<open>index\<close> is the start of the
  match, \<open>indices\<close> has one entry per capture group (group 0 first), \<open>undefined\<close> for a
  group that did not participate.
\<close>

record RegExpExecArray =
  index :: nat
  indices :: "(nat \<times> nat) option list"

record RegExp =
  lastIndex :: nat
  run :: "nat \<Rightarrow> string \<Rightarrow> nat \<times> (error + RegExpExecArray option)"

type_synonym ref = nat
type_synonym heap = "ref \<Rightarrow> RegExp"

text \<open>\<open>regexp.exec(str)\<close>: reads and writes the \<open>lastIndex\<close> of the object at \<open>r\<close>.\<close>

definition exec :: "heap \<Rightarrow> ref \<Rightarrow> string \<Rightarrow> heap \<times> (error + RegExpExecArray option)" where
  "exec h r str =
     (let re = h r;
          (li, res) = run re (lastIndex re) str
      in (h(r := re\<lparr>lastIndex := li\<rparr>), res))"

text \<open>\<open>regexp.lastIndex = n\<close>\<close>

definition set_lastIndex :: "heap \<Rightarrow> ref \<Rightarrow> nat \<Rightarrow> heap" where
  "set_lastIndex h r n = h(r := (h r)\<lparr>lastIndex := n\<rparr>)"

text \<open>
  The state shared by the scanners of one engine: the cache (\<open>Map<string, RegExp | Error>\<close>;
  a stored thrown value is \<open>Inl\<close>, a stored \<open>RegExp\<close> is \<open>Inr\<close>), the heap of
  \<open>RegExp\<close> objects and the next unused address.
\<close>

record state =
  cache :: "string \<rightharpoonup> (error + ref)"
  heap :: heap
  fresh :: ref

text \<open>
  The fields of \<open>JavaScriptScanner\<close> that a scan reads. The fields \<open>cache\<close> and
  \<open>regexConstructor\<close> are used by the constructor only; they are its arguments below.
\<close>

record JavaScriptScanner =
  patterns :: "string list"
  forgiving :: bool
  regexps :: "ref option list"
  contiguousAnchorSimulation :: "bool list"

record CaptureIndex =
  start :: int
  length' :: int
  end' :: int

record MatchResult =
  index' :: nat
  captureIndices :: "CaptureIndex list"

text \<open>\<open>string | RegexEngineString\<close>, the argument of \<open>findNextMatchSync\<close>.\<close>

record RegexEngineString =
  content :: string

datatype string_arg = Raw string | Wrapped RegexEngineString

definition MAX' :: int where
  "MAX' = 4294967295"

subsection \<open>The constructor\<close>

definition startsWith :: "string \<Rightarrow> string \<Rightarrow> bool" where
  "startsWith p pre = (take (length pre) p = pre)"

text \<open>The two prefixes \<open>(^|\G)\<close> and \<open>(\G|^)\<close> (six characters each).\<close>

definition anchor1 :: string where
  "anchor1 = [CHR ''('', CHR ''^'', CHR ''|'', CHR 0x5C, CHR ''G'', CHR '')'']"

definition anchor2 :: string where
  "anchor2 = [CHR ''('', CHR 0x5C, CHR ''G'', CHR ''|'', CHR ''^'', CHR '')'']"

type_synonym regexConstructor = "string \<Rightarrow> error + RegExp"

text \<open>
  Lines 65 to 76, the \<open>try\<close> and \<open>catch\<close> of the \<open>patterns.map\<close> callback: the
  compilation, whose result or thrown value is written to the cache. A new \<open>RegExp\<close>
  gets the next unused address.
\<close>

definition compile ::
  "regexConstructor \<Rightarrow> bool \<Rightarrow> string \<Rightarrow> state \<Rightarrow> state \<times> (error + ref option)" where
  "compile ctor fg p st =
     (case ctor p of
        Inr regex \<Rightarrow>
          (st\<lparr>cache := (cache st)(p \<mapsto> Inr (fresh st)),
              heap := (heap st)(fresh st := regex),
              fresh := Suc (fresh st)\<rparr>,
           Inr (Some (fresh st)))
      | Inl e \<Rightarrow>
          (st\<lparr>cache := (cache st)(p \<mapsto> Inl e)\<rparr>,
           if fg then Inr None else Inl e))"

text \<open>
  The body of the \<open>patterns.map\<close> callback after the anchor test (lines 56 to 76):
  \<open>cache.get(p)\<close> and the test \<open>if (cached)\<close>, which a \<open>RegExp\<close> and a truthy
  thrown value pass; a pattern without an entry and a pattern whose entry is a falsy
  thrown value go on to the compilation.
\<close>

definition resolve ::
  "regexConstructor \<Rightarrow> bool \<Rightarrow> string \<Rightarrow> state \<Rightarrow> state \<times> (error + ref option)" where
  "resolve ctor fg p st =
     (case cache st p of
        Some (Inr re) \<Rightarrow> (st, Inr (Some re))
      | Some (Inl err) \<Rightarrow>
          if truthy err then (if fg then (st, Inr None) else (st, Inl err))
          else compile ctor fg p st
      | None \<Rightarrow> compile ctor fg p st)"

text \<open>
  \<open>patterns.map((p, idx) => ...)\<close>: the patterns left, the index, the flag array and the
  shared state; a throw ends the loop.
\<close>

fun map_patterns ::
  "regexConstructor \<Rightarrow> bool \<Rightarrow> string list \<Rightarrow> nat \<Rightarrow> bool list \<Rightarrow> state
     \<Rightarrow> state \<times> (error + ref option list \<times> bool list)" where
  "map_patterns ctor fg [] idx cas st = (st, Inr ([], cas))"
| "map_patterns ctor fg (p # ps) idx cas st =
     (let cas' = (if startsWith p anchor1 \<or> startsWith p anchor2
                  then cas[idx := True] else cas)
      in case resolve ctor fg p st of
           (st', Inl e) \<Rightarrow> (st', Inl e)
         | (st', Inr slot) \<Rightarrow>
             (case map_patterns ctor fg ps (Suc idx) cas' st' of
                (st'', Inl e) \<Rightarrow> (st'', Inl e)
              | (st'', Inr (slots, cas'')) \<Rightarrow> (st'', Inr (slot # slots, cas''))))"

definition new_JavaScriptScanner ::
  "regexConstructor \<Rightarrow> string list \<Rightarrow> bool \<Rightarrow> state \<Rightarrow> state \<times> (error + JavaScriptScanner)" where
  "new_JavaScriptScanner ctor ps fg st =
     (case map_patterns ctor fg ps 0 (replicate (length ps) False) st of
        (st', Inl e) \<Rightarrow> (st', Inl e)
      | (st', Inr (slots, cas)) \<Rightarrow>
          (st', Inr \<lparr>patterns = ps, forgiving = fg, regexps = slots,
                     contiguousAnchorSimulation = cas\<rparr>))"

text \<open>\<open>createString\<close> of the engine.\<close>

definition createString :: "string \<Rightarrow> RegexEngineString" where
  "createString s = \<lparr>content = s\<rparr>"

subsection \<open>The scan\<close>

definition toResult :: "nat \<Rightarrow> RegExpExecArray \<Rightarrow> nat \<Rightarrow> MatchResult" where
  "toResult i m offset =
     \<lparr>index' = i,
      captureIndices =
        map (\<lambda>indice.
               case indice of
                 None \<Rightarrow> \<lparr>start = MAX', length' = 0, end' = MAX'\<rparr>
               | Some (s, e) \<Rightarrow>
                   \<lparr>start = int s + int offset,
                    length' = int e - int s,
                    end' = int e + int offset\<rparr>)
            (indices m)\<rparr>"

text \<open>
  Lines 111 to 122, the searches inside the \<open>try\<close> block: the search from
  \<open>startPosition\<close>, and for a flagged pattern that found nothing the search of the
  slice; the result is the thrown error, nothing, or the match with its offset.
\<close>

definition try_exec ::
  "heap \<Rightarrow> ref \<Rightarrow> bool \<Rightarrow> string \<Rightarrow> nat
     \<Rightarrow> heap \<times> (error + (RegExpExecArray \<times> nat) option)" where
  "try_exec h r anchor str startPosition =
     (case exec (set_lastIndex h r startPosition) r str of
        (h1, Inl e) \<Rightarrow> (h1, Inl e)
      | (h1, Inr (Some m)) \<Rightarrow> (h1, Inr (Some (m, 0)))
      | (h1, Inr None) \<Rightarrow>
          if anchor then
            (case exec (set_lastIndex h1 r 0) r (drop startPosition str) of
               (h2, Inl e) \<Rightarrow> (h2, Inl e)
             | (h2, Inr None) \<Rightarrow> (h2, Inr None)
             | (h2, Inr (Some m)) \<Rightarrow> (h2, Inr (Some (m, startPosition))))
          else (h1, Inr None))"

type_synonym pending = "(nat \<times> RegExpExecArray \<times> nat) list"

text \<open>Lines 139 to 148: the pending match with the least \<open>index\<close>, the first of them.\<close>

definition closest :: "pending \<Rightarrow> MatchResult option" where
  "closest pending =
     (if pending \<noteq> [] then
        (let minIndex = Min (set (map (\<lambda>m. index (fst (snd m))) pending))
         in case find (\<lambda>(i, match, offset). index match = minIndex) pending of
              Some (i, match, offset) \<Rightarrow> Some (toResult i match offset)
            | None \<Rightarrow> None)
      else None)"

text \<open>
  The \<open>for\<close> loop of lines 106 to 136 from index \<open>i\<close> on, over the slots
  \<open>regexps[i], regexps[i+1], ...\<close>; reading \<open>contiguousAnchorSimulation[i]\<close> beyond the
  array gives \<open>undefined\<close>, which is false.
\<close>

fun scan ::
  "bool list \<Rightarrow> bool \<Rightarrow> string \<Rightarrow> nat \<Rightarrow> nat \<Rightarrow> ref option list \<Rightarrow> pending \<Rightarrow> heap
     \<Rightarrow> heap \<times> (error + MatchResult option)" where
  "scan cas fg str startPosition i [] pending h = (h, Inr (closest pending))"
| "scan cas fg str startPosition i (None # rs) pending h =
     scan cas fg str startPosition (Suc i) rs pending h"
| "scan cas fg str startPosition i (Some regexp # rs) pending h =
     (case try_exec h regexp (i < length cas \<and> cas ! i) str startPosition of
        (h', Inl e) \<Rightarrow>
          if fg then scan cas fg str startPosition (Suc i) rs pending h'
          else (h', Inl e)
      | (h', Inr None) \<Rightarrow> scan cas fg str startPosition (Suc i) rs pending h'
      | (h', Inr (Some (match, offset))) \<Rightarrow>
          if index match = startPosition then (h', Inr (Some (toResult i match offset)))
          else scan cas fg str startPosition (Suc i) rs (pending @ [(i, match, offset)]) h')"

definition findNextMatchSync ::
  "JavaScriptScanner \<Rightarrow> string_arg \<Rightarrow> nat \<Rightarrow> heap \<Rightarrow> heap \<times> (error + MatchResult option)" where
  "findNextMatchSync this string startPosition h =
     (let str = (case string of Raw s \<Rightarrow> s | Wrapped w \<Rightarrow> content w)
      in scan (contiguousAnchorSimulation this) (forgiving this) str startPosition 0
           (regexps this) [] h)"

subsection \<open>Auxiliary definitions for the statements\<close>

text \<open>
  Before each search the scanner sets \<open>lastIndex\<close> itself, so what a search returns
  depends on the object's behaviour only: \<open>search\<close> is the result of \<open>exec\<close> on an
  object whose \<open>lastIndex\<close> has just been set to \<open>n\<close>, \<open>candidate\<close> is what the
  \<open>try\<close> block finds for one pattern, \<open>outcome\<close> the same for a slot that may be
  \<open>null\<close>, and \<open>select\<close> is the loop over these outcomes. They are used to state
  and prove properties of \<open>findNextMatchSync\<close>; \<open>scan_snd\<close> relates them to the code.
\<close>

definition search :: "RegExp \<Rightarrow> nat \<Rightarrow> string \<Rightarrow> error + RegExpExecArray option" where
  "search re n str = snd (run re n str)"

definition candidate ::
  "RegExp \<Rightarrow> bool \<Rightarrow> string \<Rightarrow> nat \<Rightarrow> error + (RegExpExecArray \<times> nat) option" where
  "candidate re anchor str startPosition =
     (case search re startPosition str of
        Inl e \<Rightarrow> Inl e
      | Inr (Some m) \<Rightarrow> Inr (Some (m, 0))
      | Inr None \<Rightarrow>
          if anchor then
            (case search re 0 (drop startPosition str) of
               Inl e \<Rightarrow> Inl e
             | Inr None \<Rightarrow> Inr None
             | Inr (Some m) \<Rightarrow> Inr (Some (m, startPosition)))
          else Inr None)"

definition outcome ::
  "bool list \<Rightarrow> string \<Rightarrow> nat \<Rightarrow> heap \<Rightarrow> nat \<Rightarrow> ref option
     \<Rightarrow> error + (RegExpExecArray \<times> nat) option" where
  "outcome cas str startPosition h i slot =
     (case slot of
        None \<Rightarrow> Inr None
      | Some r \<Rightarrow> candidate (h r) (i < length cas \<and> cas ! i) str startPosition)"

fun outcomes ::
  "bool list \<Rightarrow> string \<Rightarrow> nat \<Rightarrow> heap \<Rightarrow> nat \<Rightarrow> ref option list
     \<Rightarrow> (error + (RegExpExecArray \<times> nat) option) list" where
  "outcomes cas str startPosition h i [] = []"
| "outcomes cas str startPosition h i (slot # rs) =
     outcome cas str startPosition h i slot # outcomes cas str startPosition h (Suc i) rs"

fun select ::
  "bool \<Rightarrow> nat \<Rightarrow> nat \<Rightarrow> (error + (RegExpExecArray \<times> nat) option) list \<Rightarrow> pending
     \<Rightarrow> error + MatchResult option" where
  "select fg startPosition i [] pending = Inr (closest pending)"
| "select fg startPosition i (Inl e # os) pending =
     (if fg then select fg startPosition (Suc i) os pending else Inl e)"
| "select fg startPosition i (Inr None # os) pending = select fg startPosition (Suc i) os pending"
| "select fg startPosition i (Inr (Some (match, offset)) # os) pending =
     (if index match = startPosition then Inr (Some (toResult i match offset))
      else select fg startPosition (Suc i) os (pending @ [(i, match, offset)]))"

text \<open>
  What the test \<open>if (cached)\<close> of line 57 accepts: a \<open>RegExp\<close>, or a thrown value
  that is truthy.
\<close>

definition present :: "error + ref \<Rightarrow> bool" where
  "present v = (case v of Inr re \<Rightarrow> True | Inl err \<Rightarrow> truthy err)"


text \<open>
  An entry that later constructions with the constructor \<open>ctor\<close> leave as it is: one
  that passes the test of line 57, or the value that \<open>ctor\<close> throws again.
\<close>

definition kept :: "regexConstructor \<Rightarrow> string \<Rightarrow> error + ref \<Rightarrow> bool" where
  "kept ctor p v = (case v of Inr re \<Rightarrow> True | Inl err \<Rightarrow> truthy err \<or> ctor p = Inl err)"

text \<open>
  What the constructor's callback returns or throws on a cache hit with the value \<open>v\<close>
  (lines 58 to 63), and the slot that belongs to a cache value.
\<close>

definition hit :: "bool \<Rightarrow> error + ref \<Rightarrow> error + ref option" where
  "hit fg v = (case v of Inr re \<Rightarrow> Inr (Some re) | Inl err \<Rightarrow> if fg then Inr None else Inl err)"

definition slot_of :: "(error + ref) option \<Rightarrow> ref option" where
  "slot_of v = (case v of Some (Inr re) \<Rightarrow> Some re | _ \<Rightarrow> None)"

text \<open>
  The flag array after the anchor test of line 54 for the pattern at \<open>idx\<close>.
\<close>

definition mark :: "string \<Rightarrow> nat \<Rightarrow> bool list \<Rightarrow> bool list" where
  "mark p idx cas =
     (if startsWith p anchor1 \<or> startsWith p anchor2 then cas[idx := True] else cas)"

text \<open>
  The subject string of a call (lines 81 to 83).
\<close>

definition str_of :: "string_arg \<Rightarrow> string" where
  "str_of string = (case string of Raw s \<Rightarrow> s | Wrapped w \<Rightarrow> content w)"

text \<open>
  The loop goes on to the next pattern after this outcome: nothing found, a match that
  does not satisfy the test of line 125, or an error that is swallowed.
\<close>

definition passes :: "bool \<Rightarrow> nat \<Rightarrow> error + (RegExpExecArray \<times> nat) option \<Rightarrow> bool" where
  "passes fg startPosition oc =
     (case oc of
        Inl e \<Rightarrow> fg
      | Inr None \<Rightarrow> True
      | Inr (Some (match, offset)) \<Rightarrow> index match \<noteq> startPosition)"

text \<open>
  A match of the slice \<open>str.slice(n)\<close> in the positions of \<open>str\<close>.
\<close>

definition shift :: "nat \<Rightarrow> RegExpExecArray \<Rightarrow> RegExpExecArray" where
  "shift n m =
     \<lparr>index = index m + n,
      indices = map (map_option (\<lambda>(s, e). (s + n, e + n))) (indices m)\<rparr>"

subsection \<open>Regular expressions for the examples\<close>

text \<open>
  Concrete \<open>RegExp\<close> objects for the examples below. \<open>exec_dgm\<close> is \<open>exec\<close> of a global,
  non-sticky regex (flags \<open>dgm\<close>, as the default constructor sets them): nothing is found
  and \<open>lastIndex\<close> becomes 0 when \<open>lastIndex\<close> is beyond the subject or no position from
  \<open>lastIndex\<close> on matches; otherwise the first matching position is the \<open>index\<close> of the
  match and \<open>lastIndex\<close> becomes its end. The argument \<open>at\<close> tries the pattern at one
  position and gives the end of the match and the capture groups after group 0.
\<close>

fun first_match :: "(nat \<Rightarrow> 'a option) \<Rightarrow> nat list \<Rightarrow> (nat \<times> 'a) option" where
  "first_match at [] = None"
| "first_match at (k # ks) =
     (case at k of Some x \<Rightarrow> Some (k, x) | None \<Rightarrow> first_match at ks)"

definition exec_dgm ::
  "(string \<Rightarrow> nat \<Rightarrow> (nat \<times> (nat \<times> nat) option list) option)
     \<Rightarrow> nat \<Rightarrow> string \<Rightarrow> nat \<times> (error + RegExpExecArray option)" where
  "exec_dgm at li str =
     (if length str < li then (0, Inr None)
      else case first_match (at str) [li..<Suc (length str)] of
             None \<Rightarrow> (0, Inr None)
           | Some (k, (e, groups)) \<Rightarrow>
               (e, Inr (Some \<lparr>index = k, indices = Some (k, e) # groups\<rparr>)))"

text \<open>
  A literal \<open>lit\<close>, optionally after the empty group \<open>(^|)\<close> (what is left of \<open>(^|\G)\<close>
  once \<open>\G\<close> is ignored) and optionally behind a negative lookbehind \<open>(?<!b)\<close>.
\<close>

definition at_literal ::
  "bool \<Rightarrow> string option \<Rightarrow> string \<Rightarrow> string \<Rightarrow> nat
     \<Rightarrow> (nat \<times> (nat \<times> nat) option list) option" where
  "at_literal grp lb lit str k =
     (if take (length lit) (drop k str) = lit
         \<and> (case lb of
               None \<Rightarrow> True
             | Some b \<Rightarrow> \<not> (length b \<le> k \<and> take (length b) (drop (k - length b) str) = b))
      then Some (k + length lit, if grp then [Some (k, k)] else [])
      else None)"

text \<open>The pattern \<open>(a)|b\<close>: group 1 takes part only when \<open>a\<close> matched.\<close>

definition at_a_or_b :: "string \<Rightarrow> nat \<Rightarrow> (nat \<times> (nat \<times> nat) option list) option" where
  "at_a_or_b str k =
     (if take 1 (drop k str) = ''a'' then Some (k + 1, [Some (k, k + 1)])
      else if take 1 (drop k str) = ''b'' then Some (k + 1, [None])
      else None)"

definition new_RegExp ::
  "(string \<Rightarrow> nat \<Rightarrow> (nat \<times> (nat \<times> nat) option list) option) \<Rightarrow> RegExp" where
  "new_RegExp at = \<lparr>lastIndex = 0, run = exec_dgm at\<rparr>"

text \<open>A \<open>regexConstructor\<close> that knows a few patterns and throws on every other one.\<close>

definition example_ctor :: regexConstructor where
  "example_ctor p =
     (if p = ''a'' then Inr (new_RegExp (at_literal False None ''a''))
      else if p = ''b'' then Inr (new_RegExp (at_literal False None ''b''))
      else if p = ''c'' then Inr (new_RegExp (at_literal False None ''c''))
      else if p = ''e'' then Inr (new_RegExp (at_literal False None ''e''))
      else if p = ''(a)|b'' then Inr (new_RegExp at_a_or_b)
      else if p = anchor1 @ ''b'' then Inr (new_RegExp (at_literal True None ''b''))
      else if p = anchor1 @ ''(?<!a)b''
        then Inr (new_RegExp (at_literal True (Some ''a'') ''b''))
      else if p = anchor1 @ ''(?<!abcde)z''
        then Inr (new_RegExp (at_literal True (Some ''abcde'') ''z''))
      else Inl (Error (''unsupported: '' @ p)))"

text \<open>
  A \<open>regexConstructor\<close> whose regex for \<open>a\<close> throws at scan time on a subject of more
  than three characters and is \<open>/a/dgm\<close> otherwise.
\<close>

definition fragile_ctor :: regexConstructor where
  "fragile_ctor p =
     (if p = ''a''
      then Inr \<lparr>lastIndex = 0,
                run = (\<lambda>li str. if 3 < length str then (li, Inl (Error ''RangeError''))
                                 else exec_dgm (at_literal False None ''a'') li str)\<rparr>
      else Inl (Error (''unsupported: '' @ p)))"

text \<open>A \<open>regexConstructor\<close> that throws \<open>undefined\<close> on every pattern.\<close>

definition falsy_ctor :: regexConstructor where
  "falsy_ctor p = Inl Undefined"

text \<open>A new engine: an empty cache and no \<open>RegExp\<close> allocated yet.\<close>

definition empty_state :: state where
  "empty_state =
     \<lparr>cache = Map.empty,
      heap = (\<lambda>_. \<lparr>lastIndex = 0, run = (\<lambda>_ _. (0, Inr None))\<rparr>),
      fresh = 0\<rparr>"

text \<open>The state after the first scanner over \<open>ps\<close> has been built in a new engine.\<close>

definition state_after :: "regexConstructor \<Rightarrow> string list \<Rightarrow> bool \<Rightarrow> state" where
  "state_after ctor ps fg = fst (new_JavaScriptScanner ctor ps fg empty_state)"

definition ex1_patterns :: "string list" where
  "ex1_patterns = [''e'', anchor1 @ ''(?<!abcde)z'']"

definition ex1_scanner :: JavaScriptScanner where
  "ex1_scanner =
     \<lparr>patterns = ex1_patterns, forgiving = False, regexps = [Some 0, Some 1],
      contiguousAnchorSimulation = [False, True]\<rparr>"

definition ex2_patterns :: "string list" where
  "ex2_patterns = [anchor1 @ ''(?<!a)b'', ''b'']"

definition ex2_scanner :: JavaScriptScanner where
  "ex2_scanner =
     \<lparr>patterns = ex2_patterns, forgiving = False, regexps = [Some 0, Some 1],
      contiguousAnchorSimulation = [True, False]\<rparr>"

definition ex3_patterns :: "string list" where
  "ex3_patterns = [''a'', anchor1 @ ''b'']"

definition ex3_scanner :: JavaScriptScanner where
  "ex3_scanner =
     \<lparr>patterns = ex3_patterns, forgiving = False, regexps = [Some 0, Some 1],
      contiguousAnchorSimulation = [False, True]\<rparr>"

definition ex4_patterns :: "string list" where
  "ex4_patterns = [''(a)|b'']"

definition ex4_scanner :: JavaScriptScanner where
  "ex4_scanner =
     \<lparr>patterns = ex4_patterns, forgiving = False, regexps = [Some 0],
      contiguousAnchorSimulation = [False]\<rparr>"



definition ex6_patterns :: "string list" where
  "ex6_patterns = [''(?i:x)'', ''x++'']"



definition ex8_patterns :: "string list" where
  "ex8_patterns = [''a'']"

definition ex8_scanner :: "bool \<Rightarrow> JavaScriptScanner" where
  "ex8_scanner fg =
     \<lparr>patterns = ex8_patterns, forgiving = fg, regexps = [Some 0],
      contiguousAnchorSimulation = [False]\<rparr>"

section \<open>Properties\<close>

subsection \<open>One search: result and effect on the heap\<close>

lemma exec_snd: "snd (exec (set_lastIndex h r n) r str) = search (h r) n str"
  by (simp add: exec_def set_lastIndex_def search_def Let_def split: prod.splits)

lemma exec_run: "run (fst (exec h r str) r') = run (h r')"
  by (simp add: exec_def Let_def split: prod.splits)

lemma exec_other: "r' \<noteq> r \<Longrightarrow> fst (exec h r str) r' = h r'"
  by (simp add: exec_def Let_def split: prod.splits)

lemma set_lastIndex_run: "run (set_lastIndex h r n r') = run (h r')"
  by (simp add: set_lastIndex_def)

lemma set_lastIndex_other: "r' \<noteq> r \<Longrightarrow> set_lastIndex h r n r' = h r'"
  by (simp add: set_lastIndex_def)

lemma search_cong: "run re = run re' \<Longrightarrow> search re = search re'"
  by (auto simp: search_def fun_eq_iff)

lemma candidate_cong:
  assumes "run re = run re'"
  shows "candidate re = candidate re'"
proof -
  have s: "search re = search re'"
    using assms by (rule search_cong)
  show ?thesis
    by (intro ext) (simp only: candidate_def s)
qed

lemma try_exec_snd: "snd (try_exec h r a str sp) = candidate (h r) a str sp"
proof -
  obtain h1 res where e1: "exec (set_lastIndex h r sp) r str = (h1, res)"
    by (cases "exec (set_lastIndex h r sp) r str")
  have r1: "res = search (h r) sp str"
    using exec_snd [of h r sp str] e1 by simp
  have run1: "run (h1 r) = run (h r)"
    using exec_run [of "set_lastIndex h r sp" r str r] e1 by (simp add: set_lastIndex_run)
  obtain h2 res2 where e2: "exec (set_lastIndex h1 r 0) r (drop sp str) = (h2, res2)"
    by (cases "exec (set_lastIndex h1 r 0) r (drop sp str)")
  have r2: "res2 = search (h r) 0 (drop sp str)"
    using exec_snd [of h1 r 0 "drop sp str"] e2 search_cong [OF run1] by simp
  show ?thesis
    using e1 e2 r1 r2
    by (simp add: try_exec_def candidate_def split: sum.splits option.splits)
qed

lemma try_exec_run: "run (fst (try_exec h r a str sp) r') = run (h r')"
proof -
  obtain h1 res where e1: "exec (set_lastIndex h r sp) r str = (h1, res)"
    by (cases "exec (set_lastIndex h r sp) r str")
  have run1: "run (h1 r') = run (h r')"
    using exec_run [of "set_lastIndex h r sp" r str r'] e1 by (simp add: set_lastIndex_run)
  obtain h2 res2 where e2: "exec (set_lastIndex h1 r 0) r (drop sp str) = (h2, res2)"
    by (cases "exec (set_lastIndex h1 r 0) r (drop sp str)")
  have run2: "run (h2 r') = run (h r')"
    using exec_run [of "set_lastIndex h1 r 0" r "drop sp str" r'] e2 run1
    by (simp add: set_lastIndex_run)
  show ?thesis
    using e1 e2 run1 run2
    by (simp add: try_exec_def split: sum.splits option.splits)
qed

lemma try_exec_other: "r' \<noteq> r \<Longrightarrow> fst (try_exec h r a str sp) r' = h r'"
proof -
  assume ne: "r' \<noteq> r"
  obtain h1 res where e1: "exec (set_lastIndex h r sp) r str = (h1, res)"
    by (cases "exec (set_lastIndex h r sp) r str")
  have o1: "h1 r' = h r'"
    using exec_other [OF ne, of "set_lastIndex h r sp" str] e1 ne
    by (simp add: set_lastIndex_other)
  obtain h2 res2 where e2: "exec (set_lastIndex h1 r 0) r (drop sp str) = (h2, res2)"
    by (cases "exec (set_lastIndex h1 r 0) r (drop sp str)")
  have o2: "h2 r' = h r'"
    using exec_other [OF ne, of "set_lastIndex h1 r 0" "drop sp str"] e2 ne o1
    by (simp add: set_lastIndex_other)
  show ?thesis
    using e1 e2 o1 o2
    by (simp add: try_exec_def split: sum.splits option.splits)
qed

lemma outcomes_cong:
  assumes "\<And>r. run (h' r) = run (h r)"
  shows "outcomes cas str sp h' i rs = outcomes cas str sp h i rs"
proof -
  have "outcome cas str sp h' j slot = outcome cas str sp h j slot" for j slot
    using candidate_cong [OF assms] by (simp add: outcome_def split: option.splits)
  then show ?thesis
    by (induction rs arbitrary: i) simp_all
qed

lemma scan_snd:
  "snd (scan cas fg str sp i rs pending h) = select fg sp i (outcomes cas str sp h i rs) pending"
proof (induction rs arbitrary: i pending h)
  case Nil
  show ?case by simp
next
  case (Cons slot rs)
  show ?case
  proof (cases slot)
    case None
    then show ?thesis using Cons.IH [of "Suc i" pending h] by (simp add: outcome_def)
  next
    case (Some r)
    let ?a = "i < length cas \<and> cas ! i"
    obtain h' res where te: "try_exec h r ?a str sp = (h', res)"
      by (cases "try_exec h r ?a str sp")
    have res: "outcome cas str sp h i (Some r) = res"
      using try_exec_snd [of h r ?a str sp] te by (simp add: outcome_def)
    have "\<And>r'. run (h' r') = run (h r')"
      using try_exec_run [of h r ?a str sp] te by simp
    then have oc: "outcomes cas str sp h' (Suc i) rs = outcomes cas str sp h (Suc i) rs"
      by (rule outcomes_cong)
    show ?thesis
    proof (cases res)
      case (Inl e)
      then show ?thesis
        using Some te res oc Cons.IH [of "Suc i" pending h'] by (cases fg) simp_all
    next
      case (Inr c)
      show ?thesis
      proof (cases c)
        case None
        then show ?thesis
          using Inr Some te res oc Cons.IH [of "Suc i" pending h'] by simp
      next
        case (Some mo)
        obtain m off where mo: "mo = (m, off)" by (cases mo)
        show ?thesis
          using mo Some Inr \<open>slot = Some r\<close> te res oc
            Cons.IH [of "Suc i" "pending @ [(i, m, off)]" h'] by simp
      qed
    qed
  qed
qed

lemma scan_run: "run (fst (scan cas fg str sp i rs pending h) r') = run (h r')"
proof (induction rs arbitrary: i pending h)
  case Nil
  show ?case by simp
next
  case (Cons slot rs)
  show ?case
  proof (cases slot)
    case None
    then show ?thesis using Cons.IH [of "Suc i" pending h] by simp
  next
    case (Some r)
    let ?a = "i < length cas \<and> cas ! i"
    obtain h' res where te: "try_exec h r ?a str sp = (h', res)"
      by (cases "try_exec h r ?a str sp")
    have run': "run (h' r') = run (h r')"
      using try_exec_run [of h r ?a str sp r'] te by simp
    show ?thesis
    proof (cases res)
      case (Inl e)
      then show ?thesis
        using Some te run' Cons.IH [of "Suc i" pending h'] by (cases fg) simp_all
    next
      case (Inr c)
      show ?thesis
      proof (cases c)
        case None
        then show ?thesis
          using Inr Some te run' Cons.IH [of "Suc i" pending h'] by simp
      next
        case (Some mo)
        obtain m off where mo: "mo = (m, off)" by (cases mo)
        show ?thesis
          using mo Some Inr \<open>slot = Some r\<close> te run'
            Cons.IH [of "Suc i" "pending @ [(i, m, off)]" h'] by simp
      qed
    qed
  qed
qed

lemma scan_other:
  "Some r' \<notin> set rs \<Longrightarrow> fst (scan cas fg str sp i rs pending h) r' = h r'"
proof (induction rs arbitrary: i pending h)
  case Nil
  show ?case by simp
next
  case (Cons slot rs)
  have notin: "Some r' \<notin> set rs" using Cons.prems by simp
  show ?case
  proof (cases slot)
    case None
    then show ?thesis using Cons.IH [OF notin, of "Suc i" pending h] by simp
  next
    case (Some r)
    let ?a = "i < length cas \<and> cas ! i"
    obtain h' res where te: "try_exec h r ?a str sp = (h', res)"
      by (cases "try_exec h r ?a str sp")
    have "r' \<noteq> r" using Cons.prems Some by auto
    then have same: "h' r' = h r'"
      using try_exec_other [of r' r h ?a str sp] te by simp
    show ?thesis
    proof (cases res)
      case (Inl e)
      then show ?thesis
        using Some te same Cons.IH [OF notin, of "Suc i" pending h'] by (cases fg) simp_all
    next
      case (Inr c)
      show ?thesis
      proof (cases c)
        case None
        then show ?thesis
          using Inr Some te same Cons.IH [OF notin, of "Suc i" pending h'] by simp
      next
        case (Some mo)
        obtain m off where mo: "mo = (m, off)" by (cases mo)
        show ?thesis
          using mo Some Inr \<open>slot = Some r\<close> te same
            Cons.IH [OF notin, of "Suc i" "pending @ [(i, m, off)]" h'] by simp
      qed
    qed
  qed
qed

subsection \<open>The constructor and the cache\<close>

lemma present_kept: "present v \<Longrightarrow> kept ctor p v"
  by (cases v) (simp_all add: present_def kept_def)

lemma resolve_hit:
  "cache st p = Some v \<Longrightarrow> present v \<Longrightarrow> resolve ctor fg p st = (st, hit fg v)"
  by (cases v) (simp_all add: resolve_def hit_def present_def)

lemma compile_other: "q \<noteq> p \<Longrightarrow> cache (fst (compile ctor fg q st)) p = cache st p"
  by (simp add: compile_def split: sum.splits)

lemma compile_written:
  "\<exists>v. cache (fst (compile ctor fg p st)) p = Some v \<and> kept ctor p v
       \<and> snd (compile ctor fg p st) = hit fg v"
  by (cases "ctor p") (simp_all add: compile_def hit_def kept_def)

lemma compile_again:
  assumes "cache st p = Some (Inl e)" and "ctor p = Inl e"
  shows "cache (fst (compile ctor fg p st)) p = Some (Inl e)"
  using assms by (simp add: compile_def)

lemma resolve_keep:
  assumes "cache st p = Some v" and "kept ctor p v"
  shows "cache (fst (resolve ctor fg q st)) p = Some v"
proof (cases "q = p")
  case False
  then have "cache (fst (compile ctor fg q st)) p = Some v"
    using assms(1) by (simp add: compile_other)
  then show ?thesis
    using assms(1) by (simp add: resolve_def split: option.splits sum.splits)
next
  case True
  show ?thesis
  proof (cases "present v")
    case True
    then show ?thesis
      using resolve_hit [OF assms(1), of ctor fg] \<open>q = p\<close> assms(1) by simp
  next
    case False
    then obtain e where v: "v = Inl e" "\<not> truthy e" "ctor p = Inl e"
      using assms(2) by (cases v) (auto simp: present_def kept_def)
    have "cache (fst (compile ctor fg p st)) p = Some (Inl e)"
      using compile_again [of st p e ctor fg] assms(1) v by simp
    then show ?thesis
      using assms(1) v \<open>q = p\<close> by (simp add: resolve_def)
  qed
qed

lemma resolve_written:
  "\<exists>v. cache (fst (resolve ctor fg p st)) p = Some v \<and> kept ctor p v
       \<and> snd (resolve ctor fg p st) = hit fg v"
proof (cases "\<exists>v. cache st p = Some v \<and> present v")
  case True
  then obtain v where v: "cache st p = Some v" "present v" by blast
  then show ?thesis
    using resolve_hit [OF v, of ctor fg] present_kept [of v ctor p] by auto
next
  case False
  then have "resolve ctor fg p st = compile ctor fg p st"
    by (auto simp: resolve_def present_def split: option.splits sum.splits)
  then show ?thesis
    using compile_written [of ctor fg p st] by simp
qed





lemma compile_ctor_upd: "q \<noteq> p \<Longrightarrow> compile (ctor(p := x)) fg q st = compile ctor fg q st"
  by (simp add: compile_def)

lemma resolve_ctor_upd:
  assumes "cache st p = Some v" and "present v"
  shows "resolve (ctor(p := x)) fg q st = resolve ctor fg q st"
proof (cases "q = p")
  case True
  then show ?thesis
    using resolve_hit [OF assms, of ctor fg] resolve_hit [OF assms, of "ctor(p := x)" fg]
    by simp
next
  case False
  then have c: "compile (ctor(p := x)) fg q st = compile ctor fg q st"
    by (rule compile_ctor_upd)
  show ?thesis
    by (simp only: resolve_def c)
qed

lemma map_patterns_throw:
  "resolve ctor fg p st = (st', Inl e) \<Longrightarrow> map_patterns ctor fg (p # ps) idx cas st = (st', Inl e)"
  by simp

lemma map_patterns_step:
  "resolve ctor fg p st = (st', Inr slot)
     \<Longrightarrow> map_patterns ctor fg ps (Suc idx) (mark p idx cas) st' = (st'', rest)
     \<Longrightarrow> map_patterns ctor fg (p # ps) idx cas st
           = (st'', case rest of Inl e \<Rightarrow> Inl e
                    | Inr (slots, cas'') \<Rightarrow> Inr (slot # slots, cas''))"
  by (simp add: mark_def split: sum.splits)

declare map_patterns.simps(2) [simp del]

lemma map_patterns_keep:
  "cache st p = Some v \<Longrightarrow> kept ctor p v
     \<Longrightarrow> cache (fst (map_patterns ctor fg ps idx cas st)) p = Some v"
proof (induction ps arbitrary: idx cas st)
  case Nil
  then show ?case by simp
next
  case (Cons q ps)
  obtain st' res where r: "resolve ctor fg q st = (st', res)"
    by (cases "resolve ctor fg q st")
  have k: "cache st' p = Some v"
    using resolve_keep [OF Cons.prems, of fg q] r by simp
  show ?case
  proof (cases res)
    case (Inl e)
    then show ?thesis using map_patterns_throw [of ctor fg q st st' e] r k by simp
  next
    case (Inr slot)
    obtain st'' rest where m: "map_patterns ctor fg ps (Suc idx) (mark q idx cas) st' = (st'', rest)"
      by (cases "map_patterns ctor fg ps (Suc idx) (mark q idx cas) st'")
    have "cache st'' p = Some v"
      using Cons.IH [OF k Cons.prems(2), of "Suc idx" "mark q idx cas"] m by simp
    moreover have "resolve ctor fg q st = (st', Inr slot)"
      using r Inr by simp
    ultimately show ?thesis
      using map_patterns_step [OF _ m] by simp
  qed
qed

lemma map_patterns_ctor_upd:
  "cache st p = Some v \<Longrightarrow> present v
     \<Longrightarrow> map_patterns (ctor(p := x)) fg ps idx cas st = map_patterns ctor fg ps idx cas st"
proof (induction ps arbitrary: idx cas st)
  case Nil
  then show ?case by simp
next
  case (Cons q ps)
  obtain st' res where r: "resolve ctor fg q st = (st', res)"
    by (cases "resolve ctor fg q st")
  have r': "resolve (ctor(p := x)) fg q st = (st', res)"
    using resolve_ctor_upd [OF Cons.prems, of ctor x fg q] r by simp
  have k: "cache st' p = Some v"
    using resolve_keep [OF Cons.prems(1) present_kept [OF Cons.prems(2)], of ctor fg q] r by simp
  show ?case
  proof (cases res)
    case (Inl e)
    have a: "resolve ctor fg q st = (st', Inl e)"
      and b: "resolve (ctor(p := x)) fg q st = (st', Inl e)"
      using r r' Inl by simp_all
    show ?thesis
      by (simp only: map_patterns_throw [OF a] map_patterns_throw [OF b])
  next
    case (Inr slot)
    have a: "resolve ctor fg q st = (st', Inr slot)"
      and b: "resolve (ctor(p := x)) fg q st = (st', Inr slot)"
      using r r' Inr by simp_all
    obtain st'' rest where m: "map_patterns ctor fg ps (Suc idx) (mark q idx cas) st' = (st'', rest)"
      by (cases "map_patterns ctor fg ps (Suc idx) (mark q idx cas) st'")
    have m': "map_patterns (ctor(p := x)) fg ps (Suc idx) (mark q idx cas) st' = (st'', rest)"
      using Cons.IH [OF k Cons.prems(2), of "Suc idx" "mark q idx cas"] m by (simp only:)
    show ?thesis
      by (simp only: map_patterns_step [OF a m] map_patterns_step [OF b m'])
  qed
qed


lemma hit_slot: "hit fg v = Inr slot \<Longrightarrow> slot = slot_of (Some v)"
  by (auto simp: hit_def slot_of_def split: sum.splits if_splits)

lemma map_patterns_slots:
  "map_patterns ctor fg ps idx cas st = (st1, Inr (slots, cas'))
     \<Longrightarrow> length slots = length ps
         \<and> (\<forall>i<length ps. slots ! i = slot_of (cache st1 (ps ! i)))"
proof (induction ps arbitrary: idx cas st slots)
  case Nil
  then show ?case by simp
next
  case (Cons q ps)
  obtain st' res where r: "resolve ctor fg q st = (st', res)"
    by (cases "resolve ctor fg q st")
  obtain v where v: "cache st' q = Some v" "res = hit fg v" and kv: "kept ctor q v"
    using resolve_written [of ctor fg q st] r by auto
  show ?case
  proof (cases res)
    case (Inl e)
    then have "resolve ctor fg q st = (st', Inl e)" using r by simp
    then show ?thesis
      using map_patterns_throw [of ctor fg q st st' e ps idx cas] Cons.prems by simp
  next
    case (Inr slot)
    have r0: "resolve ctor fg q st = (st', Inr slot)"
      using r Inr by simp
    obtain st'' rest where m: "map_patterns ctor fg ps (Suc idx) (mark q idx cas) st' = (st'', rest)"
      by (cases "map_patterns ctor fg ps (Suc idx) (mark q idx cas) st'")
    have whole: "(st1, Inr (slots, cas'))
           = (st'', case rest of Inl e \<Rightarrow> Inl e
                    | Inr (slots, cas'') \<Rightarrow> Inr (slot # slots, cas''))"
      using map_patterns_step [OF r0 m] Cons.prems by simp
    then obtain slots' where rest: "rest = Inr (slots', cas')" and slots: "slots = slot # slots'"
      and st1: "st1 = st''"
      by (cases rest) (auto split: prod.splits)
    have ih: "length slots' = length ps
         \<and> (\<forall>i<length ps. slots' ! i = slot_of (cache st1 (ps ! i)))"
      using Cons.IH [of "Suc idx" "mark q idx cas" st' slots'] m rest st1 by simp
    have "cache st1 q = Some v"
      using map_patterns_keep [OF v(1) kv, of fg ps "Suc idx" "mark q idx cas"] m st1 by simp
    then have head: "slot = slot_of (cache st1 q)"
      using hit_slot [of fg v slot] v(2) Inr by simp
    show ?thesis
    proof (intro conjI allI impI)
      show "length slots = length (q # ps)" using ih slots by simp
    next
      fix i assume "i < length (q # ps)"
      then show "slots ! i = slot_of (cache st1 ((q # ps) ! i))"
        using ih head slots by (cases i) simp_all
    qed
  qed
qed



lemma new_fst:
  "fst (new_JavaScriptScanner ctor ps fg st)
     = fst (map_patterns ctor fg ps 0 (replicate (length ps) False) st)"
proof -
  obtain st' r where m: "map_patterns ctor fg ps 0 (replicate (length ps) False) st = (st', r)"
    by (cases "map_patterns ctor fg ps 0 (replicate (length ps) False) st")
  show ?thesis
    by (cases r) (auto simp: new_JavaScriptScanner_def m)
qed

lemma new_snd:
  "snd (new_JavaScriptScanner ctor ps fg st)
     = (case snd (map_patterns ctor fg ps 0 (replicate (length ps) False) st) of
          Inl e \<Rightarrow> Inl e
        | Inr (slots, cas) \<Rightarrow>
            Inr \<lparr>patterns = ps, forgiving = fg, regexps = slots,
                  contiguousAnchorSimulation = cas\<rparr>)"
proof -
  obtain st' r where m: "map_patterns ctor fg ps 0 (replicate (length ps) False) st = (st', r)"
    by (cases "map_patterns ctor fg ps 0 (replicate (length ps) False) st")
  show ?thesis
    by (cases r) (auto simp: new_JavaScriptScanner_def m)
qed

lemma new_keep:
  "cache st p = Some v \<Longrightarrow> present v
     \<Longrightarrow> cache (fst (new_JavaScriptScanner ctor ps fg st)) p = Some v"
  by (simp only: new_fst map_patterns_keep present_kept)

lemma new_ctor_upd:
  assumes "cache st p = Some v" and "present v"
  shows "new_JavaScriptScanner (ctor(p := x)) ps fg st = new_JavaScriptScanner ctor ps fg st"
proof -
  have "map_patterns (ctor(p := x)) fg ps 0 (replicate (length ps) False) st
      = map_patterns ctor fg ps 0 (replicate (length ps) False) st"
    using assms by (rule map_patterns_ctor_upd)
  then show ?thesis
    by (simp only: new_JavaScriptScanner_def)
qed

lemma new_slots:
  assumes "snd (new_JavaScriptScanner ctor ps fg st) = Inr sc"
  shows "length (regexps sc) = length ps
     \<and> forgiving sc = fg
     \<and> (\<forall>i<length ps.
          regexps sc ! i = slot_of (cache (fst (new_JavaScriptScanner ctor ps fg st)) (ps ! i)))"
proof -
  obtain st' r where m: "map_patterns ctor fg ps 0 (replicate (length ps) False) st = (st', r)"
    by (cases "map_patterns ctor fg ps 0 (replicate (length ps) False) st")
  have s: "(case r of Inl e \<Rightarrow> Inl e
        | Inr (slots, cas) \<Rightarrow>
            Inr \<lparr>patterns = ps, forgiving = fg, regexps = slots,
                  contiguousAnchorSimulation = cas\<rparr>) = Inr sc"
    using assms m by (simp add: new_snd)
  then obtain slots cas where r: "r = Inr (slots, cas)"
    by (cases r) auto
  have sc: "regexps sc = slots" "forgiving sc = fg"
    using s r by auto
  have st': "fst (new_JavaScriptScanner ctor ps fg st) = st'"
    using m by (simp add: new_fst)
  have "length slots = length ps \<and> (\<forall>i<length ps. slots ! i = slot_of (cache st' (ps ! i)))"
    using map_patterns_slots [of ctor fg ps 0 "replicate (length ps) False" st st' slots cas]
      m r by simp
  then show ?thesis
    using sc st' by simp
qed






subsection \<open>The loop over the outcomes\<close>

lemma toResult_index: "index' (toResult i m off) = i"
  by (simp add: toResult_def)

lemma toResult_length: "length (captureIndices (toResult i m off)) = length (indices m)"
  by (simp add: toResult_def)

lemma toResult_None:
  "k < length (indices m) \<Longrightarrow> indices m ! k = None
     \<Longrightarrow> captureIndices (toResult i m off) ! k
           = \<lparr>start = 4294967295, length' = 0, end' = 4294967295\<rparr>"
  by (simp add: toResult_def MAX'_def)

lemma toResult_Some:
  "k < length (indices m) \<Longrightarrow> indices m ! k = Some (s, e)
     \<Longrightarrow> captureIndices (toResult i m off) ! k
           = \<lparr>start = int s + int off, length' = int e - int s, end' = int e + int off\<rparr>"
  by (simp add: toResult_def)

lemma findNextMatchSync_snd:
  "snd (findNextMatchSync this string sp h)
     = select (forgiving this) sp 0
         (outcomes (contiguousAnchorSimulation this) (str_of string) sp h 0 (regexps this)) []"
  by (simp add: findNextMatchSync_def str_of_def scan_snd)

lemma findNextMatchSync_run:
  "run (fst (findNextMatchSync this string sp h) r) = run (h r)"
  by (simp add: findNextMatchSync_def scan_run)

lemma findNextMatchSync_other:
  "Some r \<notin> set (regexps this) \<Longrightarrow> fst (findNextMatchSync this string sp h) r = h r"
  by (simp add: findNextMatchSync_def scan_other)

lemma length_outcomes: "length (outcomes cas str sp h i rs) = length rs"
  by (induction rs arbitrary: i) simp_all

lemma outcomes_nth:
  "k < length rs \<Longrightarrow> outcomes cas str sp h i rs ! k = outcome cas str sp h (i + k) (rs ! k)"
proof (induction rs arbitrary: i k)
  case Nil
  then show ?case by simp
next
  case (Cons slot rs)
  show ?case
  proof (cases k)
    case 0
    then show ?thesis by simp
  next
    case (Suc k')
    then show ?thesis using Cons.IH [of k' "Suc i"] Cons.prems by simp
  qed
qed

lemma closest_provenance:
  "closest pending = Some res \<Longrightarrow> \<exists>(j, m, off) \<in> set pending. res = toResult j m off"
proof -
  assume a: "closest pending = Some res"
  let ?P = "\<lambda>(i, match, offset). index match = Min (set (map (\<lambda>m. index (fst (snd m))) pending))"
  obtain j m off where f: "find ?P pending = Some (j, m, off)" and r: "res = toResult j m off"
    using a by (auto simp: closest_def Let_def split: if_splits option.splits)
  obtain k where "k < length pending" "(j, m, off) = pending ! k"
    using f unfolding find_Some_iff by blast
  then have "(j, m, off) \<in> set pending" by simp
  then show ?thesis using r by blast
qed

lemma select_provenance:
  "select fg sp i os pending = Inr (Some res)
     \<Longrightarrow> (\<exists>(j, m, off) \<in> set pending. res = toResult j m off)
         \<or> (\<exists>k m off. k < length os \<and> os ! k = Inr (Some (m, off)) \<and> res = toResult (i + k) m off)"
proof (induction fg sp i os pending rule: select.induct)
  case (1 fg sp i pending)
  then show ?case using closest_provenance [of pending res] by simp
next
  case (2 fg sp i e os pending)
  then have fg: fg by (simp split: if_splits)
  then have "select fg sp (Suc i) os pending = Inr (Some res)"
    using 2 by simp
  from 2(1) [OF fg this] show ?case
  proof
    assume "\<exists>(j, m, off) \<in> set pending. res = toResult j m off"
    then show ?thesis ..
  next
    assume "\<exists>k m off. k < length os \<and> os ! k = Inr (Some (m, off)) \<and> res = toResult (Suc i + k) m off"
    then obtain k m off where "k < length os" "os ! k = Inr (Some (m, off))"
        "res = toResult (Suc i + k) m off" by blast
    then have "Suc k < length (Inl e # os) \<and> (Inl e # os) ! Suc k = Inr (Some (m, off))
        \<and> res = toResult (i + Suc k) m off" by simp
    then show ?thesis by blast
  qed
next
  case (3 fg sp i os pending)
  then have "select fg sp (Suc i) os pending = Inr (Some res)"
    by simp
  from 3(1) [OF this] show ?case
  proof
    assume "\<exists>(j, m, off) \<in> set pending. res = toResult j m off"
    then show ?thesis ..
  next
    assume "\<exists>k m off. k < length os \<and> os ! k = Inr (Some (m, off)) \<and> res = toResult (Suc i + k) m off"
    then obtain k m off where "k < length os" "os ! k = Inr (Some (m, off))"
        "res = toResult (Suc i + k) m off" by blast
    then have "Suc k < length (Inr None # os) \<and> (Inr None # os) ! Suc k = Inr (Some (m, off))
        \<and> res = toResult (i + Suc k) m off" by simp
    then show ?thesis by blast
  qed
next
  case (4 fg sp i match offset os pending)
  let ?os = "Inr (Some (match, offset)) # os"
  show ?case
  proof (cases "index match = sp")
    case True
    then have "res = toResult i match offset" using 4(2) by simp
    then have "0 < length ?os \<and> ?os ! 0 = Inr (Some (match, offset))
        \<and> res = toResult (i + 0) match offset" by simp
    then show ?thesis by blast
  next
    case False
    then have "select fg sp (Suc i) os (pending @ [(i, match, offset)]) = Inr (Some res)"
      using 4(2) by simp
    from 4(1) [OF False this] show ?thesis
    proof
      assume "\<exists>(j, m, off) \<in> set (pending @ [(i, match, offset)]). res = toResult j m off"
      then have "(\<exists>(j, m, off) \<in> set pending. res = toResult j m off)
          \<or> res = toResult i match offset" by auto
      then show ?thesis
      proof
        assume "\<exists>(j, m, off) \<in> set pending. res = toResult j m off"
        then show ?thesis ..
      next
        assume "res = toResult i match offset"
        then have "0 < length ?os \<and> ?os ! 0 = Inr (Some (match, offset))
            \<and> res = toResult (i + 0) match offset" by simp
        then show ?thesis by blast
      qed
    next
      assume "\<exists>k m off. k < length os \<and> os ! k = Inr (Some (m, off)) \<and> res = toResult (Suc i + k) m off"
      then obtain k m off where "k < length os" "os ! k = Inr (Some (m, off))"
          "res = toResult (Suc i + k) m off" by blast
      then have "Suc k < length ?os \<and> ?os ! Suc k = Inr (Some (m, off))
          \<and> res = toResult (i + Suc k) m off" by simp
      then show ?thesis by blast
    qed
  qed
qed

lemma findNextMatchSync_provenance:
  assumes "snd (findNextMatchSync this string sp h) = Inr (Some res)"
  shows "\<exists>m off. index' res < length (regexps this)
           \<and> outcome (contiguousAnchorSimulation this) (str_of string) sp h (index' res)
                 (regexps this ! index' res) = Inr (Some (m, off))
           \<and> res = toResult (index' res) m off"
proof -
  let ?os = "outcomes (contiguousAnchorSimulation this) (str_of string) sp h 0 (regexps this)"
  have "select (forgiving this) sp 0 ?os [] = Inr (Some res)"
    using assms by (simp add: findNextMatchSync_snd)
  then obtain k m off where k: "k < length ?os" "?os ! k = Inr (Some (m, off))"
      "res = toResult (0 + k) m off"
    using select_provenance [of "forgiving this" sp 0 ?os "[]" res] by auto
  have "index' res = k" using k(3) by (simp add: toResult_index)
  moreover have "k < length (regexps this)"
    using k(1) by (simp add: length_outcomes)
  moreover have "outcome (contiguousAnchorSimulation this) (str_of string) sp h k (regexps this ! k)
      = Inr (Some (m, off))"
    using k(2) outcomes_nth [OF \<open>k < length (regexps this)\<close>,
      of "contiguousAnchorSimulation this" "str_of string" sp h 0] by simp
  ultimately show ?thesis
    using k(3) by simp
qed

lemma select_forgiving: "select True sp i os pending \<noteq> Inl e"
  by (induction True sp i os pending rule: select.induct) simp_all


lemma select_raises:
  "k < length os \<Longrightarrow> os ! k = Inl e \<Longrightarrow> \<forall>j<k. passes False sp (os ! j)
     \<Longrightarrow> select False sp i os pending = Inl e"
proof (induction False sp i os pending arbitrary: k rule: select.induct)
  case (1 sp i pending)
  then show ?case by simp
next
  case (2 sp i e' os pending)
  show ?case
  proof (cases k)
    case 0
    then show ?thesis using 2 by simp
  next
    case (Suc k')
    then have "passes False sp ((Inl e' # os) ! 0)" using 2 by blast
    then show ?thesis by (simp add: passes_def)
  qed
next
  case (3 sp i os pending)
  show ?case
  proof (cases k)
    case 0
    then show ?thesis using 3 by simp
  next
    case (Suc k')
    have "\<forall>j<k'. passes False sp (os ! j)"
      using 3(4) Suc by auto
    then show ?thesis using 3(1) [of k'] 3(2,3) Suc by simp
  qed
next
  case (4 sp i match offset os pending)
  show ?case
  proof (cases k)
    case 0
    then show ?thesis using 4 by simp
  next
    case (Suc k')
    have "passes False sp ((Inr (Some (match, offset)) # os) ! 0)" using 4(4) Suc by blast
    then have ne: "index match \<noteq> sp" by (simp add: passes_def)
    have "\<forall>j<k'. passes False sp (os ! j)"
      using 4(4) Suc by auto
    then show ?thesis using 4(1) [OF ne, of k'] 4(2,3) Suc ne by simp
  qed
qed

lemma select_skips:
  "k < length os \<Longrightarrow> os ! k = Inl e
     \<Longrightarrow> select True sp i os pending = select True sp i (os[k := Inr None]) pending"
proof (induction True sp i os pending arbitrary: k rule: select.induct)
  case (1 sp i pending)
  then show ?case by simp
next
  case (2 sp i e' os pending)
  then show ?case by (cases k) simp_all
next
  case (3 sp i os pending)
  then show ?case by (cases k) simp_all
next
  case (4 sp i match offset os pending)
  then show ?case by (cases k) simp_all
qed

lemma outcomes_update_None:
  "outcomes cas str sp h i (rs[k := None]) = (outcomes cas str sp h i rs)[k := Inr None]"
proof (induction rs arbitrary: i k)
  case Nil
  then show ?case by simp
next
  case (Cons slot rs)
  then show ?case by (cases k) (simp_all add: outcome_def)
qed

lemma toResult_shift: "toResult i m n = toResult i (shift n m) 0"
  by (auto simp: toResult_def shift_def split: option.splits)

subsection \<open>The examples evaluated\<close>

lemmas ex_defs = new_JavaScriptScanner_def map_patterns.simps(2) resolve_def compile_def
  example_ctor_def falsy_ctor_def
  fragile_ctor_def empty_state_def state_after_def anchor1_def anchor2_def startsWith_def
  new_RegExp_def

lemmas scan_defs = findNextMatchSync_def try_exec_def exec_def set_lastIndex_def exec_dgm_def
  at_literal_def at_a_or_b_def closest_def toResult_def

lemma ex4_scan:
  "snd (findNextMatchSync ex4_scanner (Raw ''xb'') 0 (heap (state_after example_ctor ex4_patterns False)))
     = Inr (Some \<lparr>index' = 0, captureIndices =
          [\<lparr>start = 1, length' = 1, end' = 2\<rparr>,
           \<lparr>start = 4294967295, length' = 0, end' = 4294967295\<rparr>]\<rparr>)"
  by (simp add: ex4_patterns_def ex4_scanner_def ex_defs scan_defs MAX'_def)



lemma ex8_new_shared:
  "snd (new_JavaScriptScanner example_ctor ex8_patterns False
          (state_after example_ctor ex3_patterns False)) = Inr (ex8_scanner False)"
  by (simp add: ex3_patterns_def ex8_patterns_def ex8_scanner_def ex_defs)

section \<open>The claims\<close>

text \<open>
  C1. With no match at \<open>startPosition\<close> and some match later, the claim is that the
  returned candidate has the least absolute match start (the anchor correction
  included). The code takes the least \<open>match.index\<close> of the pending matches (line 140)
  without the offset that \<open>toResult\<close> adds, so a match found in the slice is compared by
  its position in the slice. The scanner over \<open>e\<close> and \<open>(^|\G)(?<!abcde)z\<close> on
  \<open>abcdez\<close> from position 3: \<open>e\<close> matches at 4; the second pattern finds nothing in
  the whole string and matches the slice \<open>dez\<close> at 2, which is position 5; the code
  returns the second pattern, with start 5.
\<close>

theorem closest_ignores_offset_example:
  "snd (new_JavaScriptScanner example_ctor ex1_patterns False empty_state) = Inr ex1_scanner
   \<and> snd (try_exec (heap (state_after example_ctor ex1_patterns False)) 0 False ''abcdez'' 3)
       = Inr (Some (\<lparr>index = 4, indices = [Some (4, 5)]\<rparr>, 0))
   \<and> snd (try_exec (heap (state_after example_ctor ex1_patterns False)) 1 True ''abcdez'' 3)
       = Inr (Some (\<lparr>index = 2, indices = [Some (2, 3), Some (2, 2)]\<rparr>, 3))
   \<and> snd (findNextMatchSync ex1_scanner (Raw ''abcdez'') 3
            (heap (state_after example_ctor ex1_patterns False)))
       = Inr (Some \<lparr>index' = 1, captureIndices =
               [\<lparr>start = 5, length' = 1, end' = 6\<rparr>, \<lparr>start = 5, length' = 0, end' = 5\<rparr>]\<rparr>)"
  by (simp add: ex1_patterns_def ex1_scanner_def ex_defs scan_defs)

text \<open>
  C2. The claim is that a match whose absolute start is \<open>startPosition\<close>, also one
  found in the slice, is returned at once, for the lowest such pattern index. The test
  of line 125 compares \<open>match.index\<close> without the offset, so a match at the start of the
  slice (index 0) is not recognised when \<open>startPosition\<close> is not 0. The scanner over
  \<open>(^|\G)(?<!a)b\<close> and \<open>b\<close> on \<open>ab\<close> from position 1: the first pattern matches
  the slice at 0, which is position 1, and is only stored; the second pattern matches
  at 1 and is returned.
\<close>

theorem immediate_return_ignores_offset_example:
  "snd (new_JavaScriptScanner example_ctor ex2_patterns False empty_state) = Inr ex2_scanner
   \<and> snd (try_exec (heap (state_after example_ctor ex2_patterns False)) 0 True ''ab'' 1)
       = Inr (Some (\<lparr>index = 0, indices = [Some (0, 1), Some (0, 0)]\<rparr>, 1))
   \<and> snd (try_exec (heap (state_after example_ctor ex2_patterns False)) 1 False ''ab'' 1)
       = Inr (Some (\<lparr>index = 1, indices = [Some (1, 2)]\<rparr>, 0))
   \<and> snd (findNextMatchSync ex2_scanner (Raw ''ab'') 1
            (heap (state_after example_ctor ex2_patterns False)))
       = Inr (Some \<lparr>index' = 1, captureIndices = [\<lparr>start = 1, length' = 1, end' = 2\<rparr>]\<rparr>)"
  by (simp add: ex2_patterns_def ex2_scanner_def ex_defs scan_defs)

text \<open>
  C3. When the returned match belongs to a pattern whose search from
  \<open>startPosition\<close> found nothing, the pattern is flagged, the match is the one found in
  the slice from \<open>startPosition\<close>, and every capture group that took part is reported
  with \<open>startPosition\<close> added to its start and its end (the length is unchanged): the
  result is the one of the same match written in the positions of the whole string.
\<close>

theorem anchor_retry_offsets:
  assumes "snd (findNextMatchSync this string sp h) = Inr (Some res)"
    and "regexps this ! index' res = Some r"
    and "search (h r) sp (str_of string) = Inr None"
  shows "\<exists>m. search (h r) 0 (drop sp (str_of string)) = Inr (Some m)
      \<and> index' res < length (contiguousAnchorSimulation this)
      \<and> contiguousAnchorSimulation this ! index' res
      \<and> length (captureIndices res) = length (indices m)
      \<and> (\<forall>k<length (indices m). \<forall>s e. indices m ! k = Some (s, e) \<longrightarrow>
            captureIndices res ! k
              = \<lparr>start = int s + int sp, length' = int e - int s, end' = int e + int sp\<rparr>)
      \<and> res = toResult (index' res) (shift sp m) 0"
proof -
  let ?i = "index' res"
  let ?a = "?i < length (contiguousAnchorSimulation this) \<and> contiguousAnchorSimulation this ! ?i"
  obtain m off where oc: "outcome (contiguousAnchorSimulation this) (str_of string) sp h ?i
        (regexps this ! ?i) = Inr (Some (m, off))"
    and res: "res = toResult ?i m off"
    using findNextMatchSync_provenance [OF assms(1)] by blast
  have c: "candidate (h r) ?a (str_of string) sp = Inr (Some (m, off))"
    using oc assms(2) by (simp add: outcome_def)
  have a: ?a
    using c assms(3) by (auto simp: candidate_def split: if_splits)
  have retry: "search (h r) 0 (drop sp (str_of string)) = Inr (Some m)" and off: "off = sp"
    using c assms(3) a by (auto simp: candidate_def split: sum.splits option.splits)
  have len: "length (captureIndices res) = length (indices m)"
    using res toResult_length [of ?i m off] by simp
  have spans: "\<forall>k<length (indices m). \<forall>s e. indices m ! k = Some (s, e) \<longrightarrow>
            captureIndices res ! k
              = \<lparr>start = int s + int sp, length' = int e - int s, end' = int e + int sp\<rparr>"
  proof (intro allI impI)
    fix k s e assume "k < length (indices m)" "indices m ! k = Some (s, e)"
    then show "captureIndices res ! k
        = \<lparr>start = int s + int sp, length' = int e - int s, end' = int e + int sp\<rparr>"
      using toResult_Some [of k m s e ?i off] res off by simp
  qed
  have "res = toResult ?i (shift sp m) 0"
    using res off toResult_shift [of ?i m sp] by simp
  then show ?thesis
    using retry a len spans by blast
qed

text \<open>
  The first example again: the returned match of the second pattern was found in the
  slice.
\<close>

theorem anchor_retry_offsets_witness:
  "snd (findNextMatchSync ex1_scanner (Raw ''abcdez'') 3
          (heap (state_after example_ctor ex1_patterns False)))
     = Inr (Some \<lparr>index' = 1, captureIndices =
               [\<lparr>start = 5, length' = 1, end' = 6\<rparr>, \<lparr>start = 5, length' = 0, end' = 5\<rparr>]\<rparr>)
   \<and> regexps ex1_scanner ! 1 = Some 1
   \<and> search (heap (state_after example_ctor ex1_patterns False) 1) 3 (str_of (Raw ''abcdez''))
     = Inr None
   \<and> search (heap (state_after example_ctor ex1_patterns False) 1) 0
        (drop 3 (str_of (Raw ''abcdez'')))
     = Inr (Some \<lparr>index = 2, indices = [Some (2, 3), Some (2, 2)]\<rparr>)
   \<and> contiguousAnchorSimulation ex1_scanner ! 1"
proof -
  let ?h = "heap (state_after example_ctor ex1_patterns False)"
  let ?res = "\<lparr>index' = 1, captureIndices =
               [\<lparr>start = 5, length' = 1, end' = 6\<rparr>, \<lparr>start = 5, length' = 0, end' = 5\<rparr>]\<rparr>"
  have h1: "snd (findNextMatchSync ex1_scanner (Raw ''abcdez'') 3 ?h) = Inr (Some ?res)"
    by (simp add: ex1_patterns_def ex1_scanner_def ex_defs scan_defs)
  have h2: "regexps ex1_scanner ! index' ?res = Some 1"
    by (simp add: ex1_scanner_def)
  have h3: "search (?h 1) 3 (str_of (Raw ''abcdez'')) = Inr None"
    by (simp add: ex1_patterns_def ex_defs search_def str_of_def exec_dgm_def at_literal_def)
  have f: "search (?h 1) 0 (drop 3 (str_of (Raw ''abcdez'')))
      = Inr (Some \<lparr>index = 2, indices = [Some (2, 3), Some (2, 2)]\<rparr>)"
    by (simp add: ex1_patterns_def ex_defs search_def str_of_def exec_dgm_def at_literal_def)
  obtain m where "search (?h 1) 0 (drop 3 (str_of (Raw ''abcdez''))) = Inr (Some m)"
    and "contiguousAnchorSimulation ex1_scanner ! index' ?res"
    using anchor_retry_offsets [OF h1 h2 h3] by blast
  then show ?thesis
    using h1 h2 h3 f by simp
qed

text \<open>
  C4, as stated, fails: the scan writes \<open>lastIndex\<close> of the \<open>RegExp\<close> objects, which
  the cache and all scanners share. The scanner over \<open>a\<close> and \<open>(^|\G)b\<close> on
  \<open>xaby\<close> from position 1: the object cached for \<open>a\<close> has \<open>lastIndex\<close> 0 before
  the call and 2 after it.
\<close>

theorem scan_writes_lastIndex_counterexample:
  "snd (new_JavaScriptScanner example_ctor ex3_patterns False empty_state) = Inr ex3_scanner
   \<and> cache (state_after example_ctor ex3_patterns False) ''a'' = Some (Inr 0)
   \<and> regexps ex3_scanner ! 0 = Some 0
   \<and> lastIndex (heap (state_after example_ctor ex3_patterns False) 0) = 0
   \<and> lastIndex (fst (findNextMatchSync ex3_scanner (Raw ''xaby'') 1
        (heap (state_after example_ctor ex3_patterns False))) 0) = 2"
  by (simp add: ex3_patterns_def ex3_scanner_def ex_defs scan_defs)

text \<open>
  C4, amended. The pending list and the offsets are local to the call (they are not part
  of any state the call returns), and the cache is not an argument of the scan. Of the
  shared matcher objects the call changes \<open>lastIndex\<close> only, and only of objects in a
  slot of this scanner: every object is afterwards what it was but for \<open>lastIndex\<close>,
  and an object that is in no slot is unchanged.
\<close>

theorem scan_writes_only_lastIndex:
  "fst (findNextMatchSync this string sp h) r
     = (h r)\<lparr>lastIndex := lastIndex (fst (findNextMatchSync this string sp h) r)\<rparr>
   \<and> (Some r \<notin> set (regexps this) \<longrightarrow> fst (findNextMatchSync this string sp h) r = h r)"
proof
  have "run (fst (findNextMatchSync this string sp h) r) = run (h r)"
    by (rule findNextMatchSync_run)
  then show "fst (findNextMatchSync this string sp h) r
     = (h r)\<lparr>lastIndex := lastIndex (fst (findNextMatchSync this string sp h) r)\<rparr>"
    by (cases "h r"; cases "fst (findNextMatchSync this string sp h) r") simp
next
  show "Some r \<notin> set (regexps this) \<longrightarrow> fst (findNextMatchSync this string sp h) r = h r"
    using findNextMatchSync_other [of r this string sp h] by blast
qed

text \<open>
  A scanner over \<open>a\<close> built from the cache of the scanner above shares its object 0;
  scanning with it leaves object 1 as it was.
\<close>

theorem scan_writes_only_lastIndex_witness:
  "snd (new_JavaScriptScanner example_ctor ex8_patterns False
          (state_after example_ctor ex3_patterns False)) = Inr (ex8_scanner False)
   \<and> Some 1 \<notin> set (regexps (ex8_scanner False))
   \<and> fst (findNextMatchSync (ex8_scanner False) (Raw ''xaby'') 1
            (heap (state_after example_ctor ex3_patterns False))) 1
     = heap (state_after example_ctor ex3_patterns False) 1"
proof -
  have n: "Some 1 \<notin> set (regexps (ex8_scanner False))"
    by (simp add: ex8_scanner_def)
  have "fst (findNextMatchSync (ex8_scanner False) (Raw ''xaby'') 1
            (heap (state_after example_ctor ex3_patterns False))) 1
     = heap (state_after example_ctor ex3_patterns False) 1"
    by (rule scan_writes_only_lastIndex [THEN conjunct2, THEN mp, OF n])
  then show ?thesis
    using n ex8_new_shared by (intro conjI)
qed

text \<open>
  C5, as stated, fails for a slot that holds a falsy thrown value: the test
  \<open>if (cached)\<close> of line 57 takes it for a miss. A constructor throws \<open>undefined\<close> on
  \<open>a\<close> and the forgiving scanner over \<open>a\<close> records it; the next scanner over \<open>a\<close>
  with the same cache, whose constructor call succeeds, compiles the pattern again and
  overwrites the slot with the new \<open>RegExp\<close>: the two constructions resolve to \<open>null\<close>
  and to object 0.
\<close>

theorem falsy_failure_recompiled_counterexample:
  "cache (state_after falsy_ctor ex8_patterns True) ''a'' = Some (Inl Undefined)
   \<and> snd (new_JavaScriptScanner falsy_ctor ex8_patterns True empty_state)
       = Inr \<lparr>patterns = ex8_patterns, forgiving = True, regexps = [None],
                contiguousAnchorSimulation = [False]\<rparr>
   \<and> cache (fst (new_JavaScriptScanner example_ctor ex8_patterns True
                    (state_after falsy_ctor ex8_patterns True))) ''a'' = Some (Inr 0)
   \<and> snd (new_JavaScriptScanner example_ctor ex8_patterns True
            (state_after falsy_ctor ex8_patterns True)) = Inr (ex8_scanner True)"
  by (simp add: ex8_patterns_def ex8_scanner_def ex_defs)

text \<open>
  C5, amended. Once the cache has for the pattern \<open>p\<close> a value that the test of line 57
  finds (a \<open>RegExp\<close>, or a truthy thrown value such as an \<open>Error\<close> object), the
  construction of any scanner with this cache keeps that value, does not depend on what
  \<open>regexConstructor\<close> would return for \<open>p\<close> (it is not called on \<open>p\<close>), and fills every
  slot of \<open>p\<close> with the cached object, or with \<open>null\<close> for a cached failure; a scanner
  over \<open>p\<close> alone changes nothing in the shared state and resolves to the cached object
  or, when not forgiving, throws the cached error. A scanner built afterwards with the
  same cache, by whatever constructor, has in its slots of \<open>p\<close> what the first one has.
\<close>

theorem cache_slot_written_once:
  assumes "cache st p = Some v" and "present v"
  shows "cache (fst (new_JavaScriptScanner ctor ps fg st)) p = Some v
    \<and> new_JavaScriptScanner (ctor(p := x)) ps fg st = new_JavaScriptScanner ctor ps fg st
    \<and> (\<forall>sc i. snd (new_JavaScriptScanner ctor ps fg st) = Inr sc \<and> i < length ps \<and> ps ! i = p
          \<longrightarrow> regexps sc ! i = (case v of Inr re \<Rightarrow> Some re | Inl err \<Rightarrow> None))
    \<and> fst (new_JavaScriptScanner ctor [p] fg st) = st
    \<and> (\<forall>re. v = Inr re \<longrightarrow>
          (\<exists>sc. snd (new_JavaScriptScanner ctor [p] fg st) = Inr sc \<and> regexps sc = [Some re]))
    \<and> (\<forall>err. v = Inl err \<longrightarrow>
          snd (new_JavaScriptScanner ctor [p] False st) = Inl err
        \<and> (\<exists>sc. snd (new_JavaScriptScanner ctor [p] True st) = Inr sc \<and> regexps sc = [None]))
    \<and> (\<forall>ctor2 ps2 fg2 sc1 sc2 i j.
          snd (new_JavaScriptScanner ctor ps fg st) = Inr sc1
        \<and> snd (new_JavaScriptScanner ctor2 ps2 fg2 (fst (new_JavaScriptScanner ctor ps fg st)))
            = Inr sc2
        \<and> i < length ps \<and> ps ! i = p \<and> j < length ps2 \<and> ps2 ! j = p
          \<longrightarrow> regexps sc2 ! j = regexps sc1 ! i)"
proof (intro conjI)
  have slot: "regexps sc ! i = (case v of Inr re \<Rightarrow> Some re | Inl err \<Rightarrow> None)"
    if c: "cache st' p = Some v"
      and a: "snd (new_JavaScriptScanner ctor' ps' fg' st') = Inr sc" "i < length ps'" "ps' ! i = p"
    for st' ctor' ps' fg' sc i
  proof -
    have "regexps sc ! i = slot_of (cache (fst (new_JavaScriptScanner ctor' ps' fg' st')) p)"
      using new_slots [OF a(1)] a(2,3) by auto
    then show ?thesis
      using new_keep [OF c assms(2), of ctor' ps' fg']
      by (simp add: slot_of_def split: sum.splits)
  qed
  show keep: "cache (fst (new_JavaScriptScanner ctor ps fg st)) p = Some v"
    using assms by (rule new_keep)
  show "new_JavaScriptScanner (ctor(p := x)) ps fg st = new_JavaScriptScanner ctor ps fg st"
    using assms by (rule new_ctor_upd)
  show "\<forall>sc i. snd (new_JavaScriptScanner ctor ps fg st) = Inr sc \<and> i < length ps \<and> ps ! i = p
          \<longrightarrow> regexps sc ! i = (case v of Inr re \<Rightarrow> Some re | Inl err \<Rightarrow> None)"
    using slot [OF assms(1)] by blast
  have one: "new_JavaScriptScanner ctor [p] fg' st
      = (st, case hit fg' v of Inl e \<Rightarrow> Inl e
             | Inr slot \<Rightarrow> Inr \<lparr>patterns = [p], forgiving = fg', regexps = [slot],
                                  contiguousAnchorSimulation = mark p 0 [False]\<rparr>)" for fg'
  proof (cases "hit fg' v")
    case (Inl e)
    then have "resolve ctor fg' p st = (st, Inl e)"
      using resolve_hit [OF assms, of ctor fg'] by simp
    then show ?thesis
      using Inl map_patterns_throw [of ctor fg' p st st e "[]" 0 "[False]"]
      by (simp add: new_JavaScriptScanner_def)
  next
    case (Inr slot)
    then have r: "resolve ctor fg' p st = (st, Inr slot)"
      using resolve_hit [OF assms, of ctor fg'] by simp
    have "map_patterns ctor fg' [] (Suc 0) (mark p 0 [False]) st = (st, Inr ([], mark p 0 [False]))"
      by simp
    then show ?thesis
      using Inr map_patterns_step [OF r, of "[]" 0 "[False]" st "Inr ([], mark p 0 [False])"]
      by (simp add: new_JavaScriptScanner_def)
  qed
  show "fst (new_JavaScriptScanner ctor [p] fg st) = st"
    by (simp add: one)
  show "\<forall>re. v = Inr re \<longrightarrow>
          (\<exists>sc. snd (new_JavaScriptScanner ctor [p] fg st) = Inr sc \<and> regexps sc = [Some re])"
    by (simp add: one hit_def)
  show "\<forall>err. v = Inl err \<longrightarrow>
          snd (new_JavaScriptScanner ctor [p] False st) = Inl err
        \<and> (\<exists>sc. snd (new_JavaScriptScanner ctor [p] True st) = Inr sc \<and> regexps sc = [None])"
    by (simp add: one hit_def)
  show "\<forall>ctor2 ps2 fg2 sc1 sc2 i j.
          snd (new_JavaScriptScanner ctor ps fg st) = Inr sc1
        \<and> snd (new_JavaScriptScanner ctor2 ps2 fg2 (fst (new_JavaScriptScanner ctor ps fg st)))
            = Inr sc2
        \<and> i < length ps \<and> ps ! i = p \<and> j < length ps2 \<and> ps2 ! j = p
          \<longrightarrow> regexps sc2 ! j = regexps sc1 ! i"
  proof (intro allI impI)
    fix ctor2 ps2 fg2 sc1 sc2 i j
    assume a: "snd (new_JavaScriptScanner ctor ps fg st) = Inr sc1
        \<and> snd (new_JavaScriptScanner ctor2 ps2 fg2 (fst (new_JavaScriptScanner ctor ps fg st)))
            = Inr sc2
        \<and> i < length ps \<and> ps ! i = p \<and> j < length ps2 \<and> ps2 ! j = p"
    have "regexps sc1 ! i = (case v of Inr re \<Rightarrow> Some re | Inl err \<Rightarrow> None)"
      using slot [OF assms(1), of ctor ps fg sc1 i] a by simp
    moreover have "regexps sc2 ! j = (case v of Inr re \<Rightarrow> Some re | Inl err \<Rightarrow> None)"
      using slot [OF keep, of ctor2 ps2 fg2 sc2 j] a by simp
    ultimately show "regexps sc2 ! j = regexps sc1 ! i" by simp
  qed
qed

text \<open>
  The cache left by the scanner over \<open>a\<close> and \<open>(^|\G)b\<close> maps \<open>a\<close> to object 0;
  later scanners keep the entry and use that object. The cache left by the forgiving
  scanner over \<open>(?i:x)\<close> and \<open>x++\<close> holds the \<open>Error\<close> thrown for \<open>x++\<close>; a later
  scanner over \<open>x++\<close> that is not forgiving throws it.
\<close>

theorem cache_slot_written_once_witness:
  "cache (state_after example_ctor ex3_patterns False) ''a'' = Some (Inr 0)
   \<and> present (Inr 0)
   \<and> cache (fst (new_JavaScriptScanner example_ctor ex1_patterns False
                    (state_after example_ctor ex3_patterns False))) ''a'' = Some (Inr 0)
   \<and> fst (new_JavaScriptScanner example_ctor [''a''] False
            (state_after example_ctor ex3_patterns False))
     = state_after example_ctor ex3_patterns False
   \<and> snd (new_JavaScriptScanner example_ctor ex8_patterns False
            (state_after example_ctor ex3_patterns False)) = Inr (ex8_scanner False)
   \<and> regexps (ex8_scanner False) ! 0 = Some 0
   \<and> cache (state_after example_ctor ex6_patterns True) ''x++''
       = Some (Inl (Error ''unsupported: x++''))
   \<and> present (Inl (Error ''unsupported: x++''))
   \<and> snd (new_JavaScriptScanner example_ctor [''x++''] False
            (state_after example_ctor ex6_patterns True))
       = Inl (Error ''unsupported: x++'')"
proof -
  have h: "cache (state_after example_ctor ex3_patterns False) ''a'' = Some (Inr 0)"
    by (simp add: ex3_patterns_def ex_defs)
  have pr: "present (Inr 0)"
    by (simp add: present_def)
  note t = cache_slot_written_once [OF h pr, of example_ctor ex1_patterns False]
  have k1: "cache (fst (new_JavaScriptScanner example_ctor ex1_patterns False
                    (state_after example_ctor ex3_patterns False))) ''a'' = Some (Inr 0)"
    by (rule t [THEN conjunct1])
  have k4: "fst (new_JavaScriptScanner example_ctor [''a''] False
            (state_after example_ctor ex3_patterns False))
     = state_after example_ctor ex3_patterns False"
    by (rule t [THEN conjunct2, THEN conjunct2, THEN conjunct2, THEN conjunct1])
  have r: "regexps (ex8_scanner False) ! 0 = Some 0"
    by (simp add: ex8_scanner_def)
  have h': "cache (state_after example_ctor ex6_patterns True) ''x++''
       = Some (Inl (Error ''unsupported: x++''))"
    by (simp add: ex6_patterns_def ex_defs)
  have pr': "present (Inl (Error ''unsupported: x++''))"
    by (simp add: present_def)
  note t' = cache_slot_written_once [OF h' pr', of example_ctor ex1_patterns False]
  have k6: "snd (new_JavaScriptScanner example_ctor [''x++''] False
            (state_after example_ctor ex6_patterns True))
       = Inl (Error ''unsupported: x++'')"
    using t' [THEN conjunct2, THEN conjunct2, THEN conjunct2, THEN conjunct2, THEN conjunct2,
      THEN conjunct1] by blast
  show ?thesis
    using h pr k1 k4 ex8_new_shared r h' pr' k6 by (intro conjI)
qed





text \<open>
  C8, as stated, fails in its last part: a scan-time error is not recorded. The forgiving
  scanner over a regex that throws on \<open>xxxxa\<close>: the first call skips the pattern and
  returns \<open>null\<close>; the second call, on \<open>xa\<close>, runs the same matcher again and
  returns its match.
\<close>

theorem scan_error_not_recorded_counterexample:
  "snd (new_JavaScriptScanner fragile_ctor ex8_patterns True empty_state) = Inr (ex8_scanner True)
   \<and> snd (try_exec (heap (state_after fragile_ctor ex8_patterns True)) 0 False ''xxxxa'' 0)
       = Inl (Error ''RangeError'')
   \<and> snd (findNextMatchSync (ex8_scanner True) (Raw ''xxxxa'') 0
            (heap (state_after fragile_ctor ex8_patterns True))) = Inr None
   \<and> snd (findNextMatchSync (ex8_scanner True) (Raw ''xa'') 0
            (fst (findNextMatchSync (ex8_scanner True) (Raw ''xxxxa'') 0
                   (heap (state_after fragile_ctor ex8_patterns True)))))
       = Inr (Some \<lparr>index' = 0, captureIndices = [\<lparr>start = 1, length' = 1, end' = 2\<rparr>]\<rparr>)"
  by (simp add: ex8_patterns_def ex8_scanner_def ex_defs scan_defs)

text \<open>
  C8, amended. Let the matcher of pattern \<open>i\<close> throw \<open>e\<close> in this scan. Not forgiving:
  if the loop reaches the pattern (no pattern before it throws or matches at
  \<open>startPosition\<close>), the call throws \<open>e\<close>. Forgiving: the call does not throw and
  returns what it returns with the slot \<open>i\<close> set to \<open>null\<close>: the pattern is skipped, in
  this call. Nothing is recorded: what a later call returns does not depend on the
  earlier call, so the matcher is attempted again.
\<close>

theorem scan_error_policy:
  assumes "i < length (regexps this)"
    and "outcome (contiguousAnchorSimulation this) (str_of string) sp h i (regexps this ! i) = Inl e"
  shows "(\<not> forgiving this
          \<and> (\<forall>j<i. passes False sp
                (outcome (contiguousAnchorSimulation this) (str_of string) sp h j (regexps this ! j)))
        \<longrightarrow> snd (findNextMatchSync this string sp h) = Inl e)
    \<and> (forgiving this
        \<longrightarrow> snd (findNextMatchSync this string sp h)
              = snd (findNextMatchSync (this\<lparr>regexps := (regexps this)[i := None]\<rparr>) string sp h)
          \<and> (\<forall>e'. snd (findNextMatchSync this string sp h) \<noteq> Inl e'))
    \<and> (\<forall>string2 sp2.
          snd (findNextMatchSync this string2 sp2 (fst (findNextMatchSync this string sp h)))
            = snd (findNextMatchSync this string2 sp2 h))"
proof (intro conjI impI allI)
  let ?cas = "contiguousAnchorSimulation this"
  let ?os = "outcomes ?cas (str_of string) sp h 0 (regexps this)"
  have i: "i < length ?os" using assms(1) by (simp add: length_outcomes)
  have at_i: "?os ! i = Inl e"
    using outcomes_nth [OF assms(1), of ?cas "str_of string" sp h 0] assms(2) by simp
  {
    assume a: "\<not> forgiving this
          \<and> (\<forall>j<i. passes False sp (outcome ?cas (str_of string) sp h j (regexps this ! j)))"
    have "\<forall>j<i. passes False sp (?os ! j)"
    proof (intro allI impI)
      fix j assume "j < i"
      then have "j < length (regexps this)" using assms(1) by simp
      then show "passes False sp (?os ! j)"
        using outcomes_nth [of j "regexps this" ?cas "str_of string" sp h 0] a \<open>j < i\<close> by simp
    qed
    then have "select False sp 0 ?os [] = Inl e"
      using select_raises [OF i at_i] by blast
    then show "snd (findNextMatchSync this string sp h) = Inl e"
      using a by (simp add: findNextMatchSync_snd)
  }
  {
    assume fg: "forgiving this"
    have "select True sp 0 ?os [] = select True sp 0 (?os[i := Inr None]) []"
      using select_skips [OF i at_i] .
    then show "snd (findNextMatchSync this string sp h)
        = snd (findNextMatchSync (this\<lparr>regexps := (regexps this)[i := None]\<rparr>) string sp h)"
      using fg by (simp add: findNextMatchSync_snd outcomes_update_None)
    fix e'
    show "snd (findNextMatchSync this string sp h) \<noteq> Inl e'"
      using fg by (simp add: findNextMatchSync_snd select_forgiving)
  }
  fix string2 sp2
  have "outcomes ?cas (str_of string2) sp2 (fst (findNextMatchSync this string sp h)) 0 (regexps this)
      = outcomes ?cas (str_of string2) sp2 h 0 (regexps this)"
    by (rule outcomes_cong) (rule findNextMatchSync_run)
  then show "snd (findNextMatchSync this string2 sp2 (fst (findNextMatchSync this string sp h)))
      = snd (findNextMatchSync this string2 sp2 h)"
    by (simp add: findNextMatchSync_snd)
qed

text \<open>
  The regex that throws on \<open>xxxxa\<close>: not forgiving, the call throws; forgiving, it
  returns \<open>null\<close>.
\<close>

theorem scan_error_policy_witness:
  "outcome (contiguousAnchorSimulation (ex8_scanner False)) (str_of (Raw ''xxxxa'')) 0
       (heap (state_after fragile_ctor ex8_patterns False)) 0 (regexps (ex8_scanner False) ! 0)
     = Inl (Error ''RangeError'')
   \<and> snd (findNextMatchSync (ex8_scanner False) (Raw ''xxxxa'') 0
            (heap (state_after fragile_ctor ex8_patterns False)))
     = Inl (Error ''RangeError'')
   \<and> outcome (contiguousAnchorSimulation (ex8_scanner True)) (str_of (Raw ''xxxxa'')) 0
       (heap (state_after fragile_ctor ex8_patterns True)) 0 (regexps (ex8_scanner True) ! 0)
     = Inl (Error ''RangeError'')
   \<and> snd (findNextMatchSync (ex8_scanner True) (Raw ''xxxxa'') 0
            (heap (state_after fragile_ctor ex8_patterns True)))
     = Inr None"
proof -
  let ?h = "\<lambda>fg. heap (state_after fragile_ctor ex8_patterns fg)"
  have i: "0 < length (regexps (ex8_scanner fg))" for fg
    by (simp add: ex8_scanner_def)
  have o: "outcome (contiguousAnchorSimulation (ex8_scanner fg)) (str_of (Raw ''xxxxa'')) 0
       (?h fg) 0 (regexps (ex8_scanner fg) ! 0) = Inl (Error ''RangeError'')" for fg
    by (simp add: ex8_patterns_def ex8_scanner_def ex_defs outcome_def candidate_def search_def
        str_of_def)
  have nf: "\<not> forgiving (ex8_scanner False)" and fg: "forgiving (ex8_scanner True)"
    by (simp_all add: ex8_scanner_def)
  note t1 = scan_error_policy [OF i [of False] o [of False]]
  note t2 = scan_error_policy [OF i [of True] o [of True]]
  have a: "snd (findNextMatchSync (ex8_scanner False) (Raw ''xxxxa'') 0 (?h False))
     = Inl (Error ''RangeError'')"
  proof (rule t1 [THEN conjunct1, THEN mp])
    show "\<not> forgiving (ex8_scanner False)
      \<and> (\<forall>j<0. passes False 0
            (outcome (contiguousAnchorSimulation (ex8_scanner False)) (str_of (Raw ''xxxxa'')) 0
               (?h False) j (regexps (ex8_scanner False) ! j)))"
      using nf by simp
  qed
  have "snd (findNextMatchSync (ex8_scanner True) (Raw ''xxxxa'') 0 (?h True))
     = snd (findNextMatchSync (ex8_scanner True\<lparr>regexps := (regexps (ex8_scanner True))[0 := None]\<rparr>)
         (Raw ''xxxxa'') 0 (?h True))"
    by (rule t2 [THEN conjunct2, THEN conjunct1, THEN mp, OF fg, THEN conjunct1])
  also have "\<dots> = Inr None"
    by (simp add: ex8_scanner_def findNextMatchSync_def closest_def)
  finally have b: "snd (findNextMatchSync (ex8_scanner True) (Raw ''xxxxa'') 0 (?h True)) = Inr None" .
  show ?thesis
    using o [of False] a o [of True] b by (intro conjI)
qed

text \<open>
  C9. Every returned result is made from the match of the pattern it names, group by
  group: a group that did not take part is reported as start 4294967295, end
  4294967295, length 0; a group that took part, at \<open>(s, e)\<close> in the searched string,
  is reported with start \<open>s + offset\<close>, end \<open>e + offset\<close> and length \<open>e - s\<close>, which is
  end minus start.
\<close>

theorem captures_sentinel_or_span:
  assumes "snd (findNextMatchSync this string sp h) = Inr (Some res)"
  shows "\<exists>m off.
      outcome (contiguousAnchorSimulation this) (str_of string) sp h (index' res)
          (regexps this ! index' res) = Inr (Some (m, off))
    \<and> length (captureIndices res) = length (indices m)
    \<and> (\<forall>k<length (indices m).
         (indices m ! k = None \<longrightarrow>
            captureIndices res ! k
              = \<lparr>start = 4294967295, length' = 0, end' = 4294967295\<rparr>)
       \<and> (\<forall>s e. indices m ! k = Some (s, e) \<longrightarrow>
            captureIndices res ! k
              = \<lparr>start = int s + int off, length' = int e - int s, end' = int e + int off\<rparr>
          \<and> length' (captureIndices res ! k)
              = end' (captureIndices res ! k) - start (captureIndices res ! k)))"
proof -
  obtain m off where oc: "outcome (contiguousAnchorSimulation this) (str_of string) sp h
        (index' res) (regexps this ! index' res) = Inr (Some (m, off))"
    and res: "res = toResult (index' res) m off"
    using findNextMatchSync_provenance [OF assms] by blast
  have len: "length (captureIndices res) = length (indices m)"
    using res toResult_length [of "index' res" m off] by simp
  have spans: "\<forall>k<length (indices m).
         (indices m ! k = None \<longrightarrow>
            captureIndices res ! k
              = \<lparr>start = 4294967295, length' = 0, end' = 4294967295\<rparr>)
       \<and> (\<forall>s e. indices m ! k = Some (s, e) \<longrightarrow>
            captureIndices res ! k
              = \<lparr>start = int s + int off, length' = int e - int s, end' = int e + int off\<rparr>
          \<and> length' (captureIndices res ! k)
              = end' (captureIndices res ! k) - start (captureIndices res ! k))"
  proof (intro allI impI conjI)
    fix k assume "k < length (indices m)" "indices m ! k = None"
    then show "captureIndices res ! k = \<lparr>start = 4294967295, length' = 0, end' = 4294967295\<rparr>"
      using toResult_None [of k m "index' res" off] res by simp
  next
    fix k s e assume k: "k < length (indices m)" "indices m ! k = Some (s, e)"
    then show c: "captureIndices res ! k
        = \<lparr>start = int s + int off, length' = int e - int s, end' = int e + int off\<rparr>"
      using toResult_Some [of k m s e "index' res" off] res by simp
    show "length' (captureIndices res ! k)
        = end' (captureIndices res ! k) - start (captureIndices res ! k)"
      by (simp add: c)
  qed
  show ?thesis
    using oc len spans by blast
qed

text \<open>
  The pattern \<open>(a)|b\<close> on \<open>xb\<close>: group 1 did not take part.
\<close>

theorem captures_sentinel_or_span_witness:
  "snd (findNextMatchSync ex4_scanner (Raw ''xb'') 0
          (heap (state_after example_ctor ex4_patterns False)))
     = Inr (Some \<lparr>index' = 0, captureIndices =
          [\<lparr>start = 1, length' = 1, end' = 2\<rparr>,
           \<lparr>start = 4294967295, length' = 0, end' = 4294967295\<rparr>]\<rparr>)
   \<and> outcome (contiguousAnchorSimulation ex4_scanner) (str_of (Raw ''xb'')) 0
        (heap (state_after example_ctor ex4_patterns False)) 0 (regexps ex4_scanner ! 0)
     = Inr (Some (\<lparr>index = 1, indices = [Some (1, 2), None]\<rparr>, 0))"
proof -
  let ?h = "heap (state_after example_ctor ex4_patterns False)"
  let ?res = "\<lparr>index' = 0, captureIndices =
          [\<lparr>start = 1, length' = 1, end' = 2\<rparr>,
           \<lparr>start = 4294967295, length' = 0, end' = 4294967295\<rparr>]\<rparr>"
  have h: "snd (findNextMatchSync ex4_scanner (Raw ''xb'') 0 ?h) = Inr (Some ?res)"
    by (rule ex4_scan)
  have f: "outcome (contiguousAnchorSimulation ex4_scanner) (str_of (Raw ''xb'')) 0 ?h 0
        (regexps ex4_scanner ! 0) = Inr (Some (\<lparr>index = 1, indices = [Some (1, 2), None]\<rparr>, 0))"
    by (simp add: ex4_patterns_def ex4_scanner_def ex_defs outcome_def candidate_def search_def
        str_of_def exec_dgm_def at_a_or_b_def)
  obtain m off where "outcome (contiguousAnchorSimulation ex4_scanner) (str_of (Raw ''xb'')) 0
        ?h (index' ?res) (regexps ex4_scanner ! index' ?res) = Inr (Some (m, off))"
    using captures_sentinel_or_span [OF h] by blast
  then show ?thesis
    using h f by simp
qed

text \<open>
  C10. Calling \<open>findNextMatchSync\<close> with the raw string \<open>s\<close> gives the same result
  (and the same heap) as calling it with \<open>createString(s)\<close>: the scanner reads only
  the \<open>content\<close> of the wrapper.
\<close>

theorem findNextMatchSync_createString:
  "findNextMatchSync this (Wrapped (createString s)) startPosition h
     = findNextMatchSync this (Raw s) startPosition h"
  by (simp add: findNextMatchSync_def createString_def)

end
